theory Spec2Isabelle
  imports Main "HOL-Library.Word"
begin

unbundle bit_operations_syntax

section \<open>Bytes and C library helpers\<close>

text \<open>
  A C buffer \<open>(const char *, size_t)\<close> is a \<^typ>\<open>string\<close>: a list of 8-bit characters.
  A pointer into the buffer is represented by the suffix that starts at it, or by its offset.
  Python \<open>str\<close> objects that cross the C boundary as UTF-8 (or Latin-1) are identified with
  their bytes.
\<close>

abbreviation CR :: char where "CR \<equiv> CHR 0x0D"
abbreviation LF :: char where "LF \<equiv> CHR 0x0A"
abbreviation SP :: char where "SP \<equiv> CHR 0x20"
abbreviation TAB :: char where "TAB \<equiv> CHR 0x09"
abbreviation NUL :: char where "NUL \<equiv> CHR 0x00"
abbreviation CRLF :: string where "CRLF \<equiv> [CR, LF]"

text \<open>\<open>isspace\<close>, \<open>isdigit\<close> and \<open>tolower\<close> of the C locale.\<close>

definition c_isspace :: "char \<Rightarrow> bool" where
  "c_isspace c = (c = SP \<or> c = TAB \<or> c = LF \<or> c = CHR 0x0B \<or> c = CHR 0x0C \<or> c = CR)"

definition c_isdigit :: "char \<Rightarrow> bool" where
  "c_isdigit c = (48 \<le> (of_char c :: nat) \<and> (of_char c :: nat) \<le> 57)"

definition c_tolower :: "char \<Rightarrow> char" where
  "c_tolower c =
     (if 65 \<le> (of_char c :: nat) \<and> (of_char c :: nat) \<le> 90
      then char_of (of_char c + (32::nat)) else c)"

text \<open>
  \<open>strncasecmp(s, t, n) == 0\<close>: the first \<open>n\<close> bytes agree up to case; the comparison
  stops early at a NUL that both strings share. Reading past the end of a list is reading the
  terminating NUL of a C string.
\<close>

fun strncasecmp_eq :: "string \<Rightarrow> string \<Rightarrow> nat \<Rightarrow> bool" where
  "strncasecmp_eq s t 0 = True"
| "strncasecmp_eq s t (Suc n) =
     (let a = (case s of [] \<Rightarrow> NUL | x # _ \<Rightarrow> x);
          b = (case t of [] \<Rightarrow> NUL | y # _ \<Rightarrow> y)
      in c_tolower a = c_tolower b \<and> (a = NUL \<or> strncasecmp_eq (tl s) (tl t) n))"

text \<open>
  \<open>strtol(s, NULL, 10)\<close> with a 64-bit \<open>long\<close>: leading white space, an optional sign, then
  the longest run of decimal digits; no digits give 0; a value out of range is clamped to
  \<open>LONG_MAX\<close> or \<open>LONG_MIN\<close>. Any other byte (the terminating NUL included) ends the number.
\<close>

definition LONG_MAX :: int where "LONG_MAX = 2 ^ 63 - 1"
definition LONG_MIN :: int where "LONG_MIN = - (2 ^ 63)"

definition digit_val :: "char \<Rightarrow> int" where
  "digit_val c = int (of_char c) - 48"

definition c_strtol :: "string \<Rightarrow> int" where
  "c_strtol s =
     (let s1 = dropWhile c_isspace s;
          neg = (case s1 of [] \<Rightarrow> False | c # _ \<Rightarrow> c = CHR ''-'');
          s2 = (case s1 of [] \<Rightarrow> [] | c # r \<Rightarrow> if c = CHR ''-'' \<or> c = CHR ''+'' then r else s1);
          v = foldl (\<lambda>a d. a * 10 + digit_val d) 0 (takeWhile c_isdigit s2)
      in if neg then max LONG_MIN (- v) else min LONG_MAX v)"

text \<open>Splitting a byte string on every occurrence of a separator byte.\<close>

fun split_on :: "char \<Rightarrow> string \<Rightarrow> string list" where
  "split_on c [] = [[]]"
| "split_on c (x # xs) =
     (if x = c then [] # split_on c xs
      else (case split_on c xs of [] \<Rightarrow> [[x]] | y # ys \<Rightarrow> (x # y) # ys))"

section \<open>HTTP request parser (\<open>cruet_parse_http_request\<close>)\<close>

text \<open>
  \<open>find_crlf\<close> returns the offset of the first CR LF pair, \<open>None\<close> for the C \<open>NULL\<close>.
\<close>

fun find_crlf :: "string \<Rightarrow> nat option" where
  "find_crlf (a # b # bs) =
     (if a = CR \<and> b = LF then Some 0 else map_option Suc (find_crlf (b # bs)))"
| "find_crlf _ = None"

text \<open>
  The result dict of the parser. The function returns Python \<open>None\<close> (here \<open>None\<close>) or the
  dict (here \<open>Some\<close>); it raises only when its argument is not a bytes object or an
  allocation fails, which a call on a byte string does not model.
\<close>

record parsed_request =
  rq_method :: string
  rq_path :: string
  rq_version :: string
  rq_query_string :: string
  rq_headers :: "string \<rightharpoonup> string"
  rq_body :: string
  rq_keep_alive :: bool

text \<open>The locals of the header loop: the headers dict, \<open>keep_alive\<close> and \<open>content_length\<close>.\<close>

record header_state =
  hs_headers :: "string \<rightharpoonup> string"
  hs_keep_alive :: bool
  hs_content_length :: int

definition header_state_init :: header_state where
  "header_state_init = \<lparr>hs_headers = Map.empty, hs_keep_alive = True, hs_content_length = - 1\<rparr>"

text \<open>
  One iteration of the header loop on a non-empty line \<open>hline\<close> (the bytes from \<open>hp\<close> to
  \<open>hline_end\<close>): a line without a colon is skipped; otherwise the name is the text before
  the first colon, the value is the rest with its leading spaces and tabs dropped.
\<close>

definition parse_header_line :: "string \<Rightarrow> header_state \<Rightarrow> header_state" where
  "parse_header_line hline st =
     (let hname_len = length (takeWhile (\<lambda>c. c \<noteq> CHR '':'') hline) in
      if hname_len \<ge> length hline then st
      else
        let hname = take hname_len hline;
            hval = dropWhile (\<lambda>c. c = SP \<or> c = TAB) (drop (hname_len + 1) hline);
            hval_len = length hval;
            st1 = st\<lparr>hs_headers := (hs_headers st)(hname \<mapsto> hval)\<rparr>;
            st2 = (if hname_len = 14 \<and> strncasecmp_eq hname ''Content-Length'' 14
                   then (if hval_len < 32 then st1\<lparr>hs_content_length := c_strtol hval\<rparr> else st1)
                   else st1);
            st3 = (if hname_len = 10 \<and> strncasecmp_eq hname ''Connection'' 10
                   then (if hval_len = 5 \<and> strncasecmp_eq hval ''close'' 5
                         then st2\<lparr>hs_keep_alive := False\<rparr> else st2)
                   else st2)
        in st3)"

text \<open>
  The header loop \<open>while (hp < data + data_len)\<close>; the argument \<open>hp\<close> is the unread suffix.
  It returns the final locals and the suffix at which the body starts.
\<close>

function parse_headers :: "string \<Rightarrow> header_state \<Rightarrow> header_state \<times> string" where
  "parse_headers hp st =
     (if hp = [] then (st, hp)
      else case find_crlf hp of
        None \<Rightarrow> (st, hp)
      | Some n \<Rightarrow>
          if n = 0 then (st, drop 2 hp)
          else parse_headers (drop (n + 2) hp) (parse_header_line (take n hp) st))"
  by pat_completeness auto
termination
  by (relation "measure (\<lambda>(hp, st). length hp)") auto

declare parse_headers.simps [simp del]

definition cruet_parse_http_request :: "string \<Rightarrow> parsed_request option" where
  "cruet_parse_http_request data =
     (if data = [] then None
      else case find_crlf data of
        None \<Rightarrow> None
      | Some line_end \<Rightarrow>
          let line = take line_end data;
              method_len = length (takeWhile (\<lambda>c. c \<noteq> SP) line)
          in if method_len \<ge> line_end then None
          else
            let uri_start = method_len + 1;
                uri_len = length (takeWhile (\<lambda>c. c \<noteq> SP) (drop uri_start line))
            in if uri_start + uri_len \<ge> line_end then None
            else
              let version_start = uri_start + uri_len + 1;
                  version_len = line_end - version_start
              in if version_len < 6 then None
              else
                let uri = take uri_len (drop uri_start line);
                    path_len = length (takeWhile (\<lambda>c. c \<noteq> CHR ''?'') uri);
                    qs = (if path_len < uri_len then drop (path_len + 1) uri else []);
                    (st, hp) = parse_headers (drop (line_end + 2) data) header_state_init;
                    content_length = hs_content_length st;
                    body = (if content_length > 0 \<and> content_length \<le> int (length hp)
                            then take (nat content_length) hp
                            else if content_length = 0 \<or> content_length = - 1 then []
                            else hp)
                in Some \<lparr>rq_method = take method_len line,
                         rq_path = take path_len uri,
                         rq_version = drop version_start line,
                         rq_query_string = qs,
                         rq_headers = hs_headers st,
                         rq_body = body,
                         rq_keep_alive = hs_keep_alive st\<rparr>)"

subsection \<open>The wire format, as the specification words it\<close>

text \<open>
  A request line is malformed when it has fewer than two spaces or when the text after its
  second space (the version token) is shorter than the six bytes of \<open>HTTP/X\<close>.
\<close>

definition version_token :: "string \<Rightarrow> string" where
  "version_token line =
     drop 1 (dropWhile (\<lambda>c. c \<noteq> SP) (drop 1 (dropWhile (\<lambda>c. c \<noteq> SP) line)))"

definition malformed_request_line :: "string \<Rightarrow> bool" where
  "malformed_request_line line =
     (length (filter (\<lambda>c. c = SP) line) < 2 \<or> length (version_token line) < 6)"

text \<open>
  A header line \<open>Name: value\<close>: the name ends at the first colon, the value starts after
  the spaces and tabs that follow it. A header block is a sequence of non-empty lines, none of
  which contains CR LF, each followed by CR LF.
\<close>

definition header_name :: "string \<Rightarrow> string" where
  "header_name h = takeWhile (\<lambda>c. c \<noteq> CHR '':'') h"

definition header_value :: "string \<Rightarrow> string" where
  "header_value h = dropWhile (\<lambda>c. c = SP \<or> c = TAB) (drop (length (header_name h) + 1) h)"

definition is_connection_close :: "string \<Rightarrow> bool" where
  "is_connection_close h =
     (CHR '':'' \<in> set h \<and> map c_tolower (header_name h) = ''connection''
      \<and> map c_tolower (header_value h) = ''close'')"

definition is_content_length :: "string \<Rightarrow> bool" where
  "is_content_length h =
     (CHR '':'' \<in> set h \<and> map c_tolower (header_name h) = ''content-length'')"

text \<open>
  The declared length of a header block: what \<open>strtol\<close> reads from the last
  Content-Length header whose value is shorter than 32 bytes.
\<close>

definition declared_content_length :: "string list \<Rightarrow> int option" where
  "declared_content_length hs =
     (case filter (\<lambda>h. is_content_length h \<and> length (header_value h) < 32) hs of
        [] \<Rightarrow> None
      | x # xs \<Rightarrow> Some (c_strtol (header_value (last (x # xs)))))"

definition header_line_ok :: "string \<Rightarrow> bool" where
  "header_line_ok h = (h \<noteq> [] \<and> find_crlf h = None)"

definition header_block :: "string list \<Rightarrow> string" where
  "header_block hs = concat (map (\<lambda>h. h @ CRLF) hs)"

definition request_line_ok :: "string \<Rightarrow> bool" where
  "request_line_ok line = (find_crlf line = None \<and> \<not> malformed_request_line line)"

section \<open>Cookie header parser (\<open>cruet_parse_cookies\<close>)\<close>

text \<open>
  The result dict is a map from names to values. \<open>cookie_entry\<close> is the body of the main
  loop after the leading white space and semicolons have been skipped; it returns the new
  position \<open>p\<close> and the new dict.
\<close>


definition cookie_ws :: "char \<Rightarrow> bool" where
  "cookie_ws c = (c = SP \<or> c = TAB)"

abbreviation cookie_skip :: "char \<Rightarrow> bool" where
  "cookie_skip \<equiv> (\<lambda>c. c = SP \<or> c = TAB \<or> c = CHR '';'')"

definition rtrim_ws :: "string \<Rightarrow> string" where
  "rtrim_ws s = rev (dropWhile cookie_ws (rev s))"

definition cookie_entry :: "string \<Rightarrow> (string \<rightharpoonup> string) \<Rightarrow> string \<times> (string \<rightharpoonup> string)" where
  "cookie_entry p result =
     (let name_raw = takeWhile (\<lambda>c. c \<noteq> CHR ''='' \<and> c \<noteq> CHR '';'') p;
          p2 = drop (length name_raw) p
      in if p2 = [] \<or> hd p2 \<noteq> CHR ''='' then (dropWhile (\<lambda>c. c \<noteq> CHR '';'') p2, result)
         else
           let name = rtrim_ws name_raw;
               p3 = dropWhile cookie_ws (tl p2)
           in if p3 \<noteq> [] \<and> hd p3 = CHR 0x22 then
                let val = takeWhile (\<lambda>c. c \<noteq> CHR 0x22) (tl p3);
                    r = drop (length val) (tl p3);
                    p4 = (if r \<noteq> [] then tl r else r)
                in (p4, if name \<noteq> [] then result(name \<mapsto> val) else result)
              else
                let raw = takeWhile (\<lambda>c. c \<noteq> CHR '';'') p3;
                    p4 = drop (length raw) p3
                in (p4, if name \<noteq> [] then result(name \<mapsto> rtrim_ws raw) else result))"

text \<open>The loop \<open>while (p < end)\<close>; the argument \<open>p\<close> is the unread suffix.\<close>

function cruet_parse_cookies_loop :: "string \<Rightarrow> (string \<rightharpoonup> string) \<Rightarrow> (string \<rightharpoonup> string)" where
  "cruet_parse_cookies_loop p result =
     (if p = [] then result
      else
        let p1 = dropWhile cookie_skip p
        in if p1 = [] then result
           else case cookie_entry p1 result of
                  (p4, result') \<Rightarrow> cruet_parse_cookies_loop p4 result')"
  by pat_completeness auto
termination
proof (relation "measure (\<lambda>(p, d). length p)")
  show "wf (measure (\<lambda>(p, d). length p))" by simp
next
  fix p :: string and result :: "string \<rightharpoonup> string" and x xa y
  assume x: "x = dropWhile cookie_skip p"
    and nx: "x \<noteq> []" and e: "(xa, y) = cookie_entry x result"
  let ?Q = "\<lambda>c. c \<noteq> CHR ''='' \<and> c \<noteq> CHR '';''"
  let ?p2 = "drop (length (takeWhile ?Q x)) x"
  have le: "length x \<le> length p" unfolding x by (rule length_dropWhile_le)
  have hx: "hd x \<noteq> CHR '';''"
    using nx hd_dropWhile[of cookie_skip p] unfolding x by auto
  have p2: "?p2 = dropWhile ?Q x" by (simp add: dropWhile_eq_drop)
  have a: "length (dropWhile (\<lambda>c. c \<noteq> CHR '';'') ?p2) < length x"
    if "?p2 = [] \<or> hd ?p2 \<noteq> CHR ''=''"
  proof (cases "?p2 = []")
    case True
    with nx show ?thesis by simp
  next
    case False
    with that have "hd ?p2 \<noteq> CHR ''=''" by simp
    moreover have "\<not> ?Q (hd ?p2)" using False hd_dropWhile[of ?Q x] unfolding p2 by auto
    ultimately have "hd ?p2 = CHR '';''" by auto
    with hx have "takeWhile ?Q x \<noteq> []" by (cases "takeWhile ?Q x") auto
    then have "length ?p2 < length x" using nx by (cases "takeWhile ?Q x") auto
    moreover have "length (dropWhile (\<lambda>c. c \<noteq> CHR '';'') ?p2) \<le> length ?p2"
      by (rule length_dropWhile_le)
    ultimately show ?thesis by linarith
  qed
  have b: "length (dropWhile cookie_ws (tl ?p2)) < length x" if "?p2 \<noteq> []"
  proof -
    have "length (dropWhile cookie_ws (tl ?p2)) \<le> length (tl ?p2)" by (rule length_dropWhile_le)
    moreover have "length (tl ?p2) < length ?p2" using that by (cases ?p2) auto
    moreover have "length ?p2 \<le> length x" by simp
    ultimately show ?thesis by linarith
  qed
  have "length (fst (cookie_entry x result)) < length x"
  proof (cases "?p2 = [] \<or> hd ?p2 \<noteq> CHR ''=''")
    case True
    then show ?thesis using a[OF True] by (auto simp: cookie_entry_def Let_def)
  next
    case False
    then have ne2: "?p2 \<noteq> []" by simp
    let ?p3 = "dropWhile cookie_ws (tl ?p2)"
    have "length (tl (drop n (tl ?p3))) \<le> length ?p3" for n
      by (cases ?p3) (auto intro: le_trans[OF diff_le_self])
    moreover have "length (drop n (tl ?p3)) \<le> length ?p3" for n
      by (cases ?p3) auto
    moreover have "length (drop n ?p3) \<le> length ?p3" for n by simp
    ultimately show ?thesis using False b[OF ne2]
      by (auto simp: cookie_entry_def Let_def intro: le_less_trans)
  qed
  with le e show "((xa, y), (p, result)) \<in> measure (\<lambda>(p, d). length p)"
    by (cases "cookie_entry x result") auto
qed

declare cruet_parse_cookies_loop.simps [simp del]

text \<open>
  The function works on bytes. Its argument \<open>cookie_str\<close> is the buffer that the format
  \<open>s#\<close> hands over, the UTF-8 encoding of the \<open>str\<close> that the caller passes, and every name
  and value of the result is a run of bytes of that buffer, which the code turns into a \<open>str\<close>
  with \<open>PyUnicode_DecodeLatin1\<close>. The model keeps the byte runs and does not model the two
  conversions. On a \<open>str\<close> of ASCII characters both conversions are the identity, so that
  there the byte runs are the texts themselves; on any other \<open>str\<close> the returned texts are
  the Latin-1 reading of UTF-8 bytes, which the model does not describe. The statements about
  texts below are therefore restricted to \<open>ascii_only\<close> arguments.
\<close>

definition ascii_only :: "string \<Rightarrow> bool" where
  "ascii_only s = list_all (\<lambda>c. (of_char c :: nat) < 128) s"

definition cruet_parse_cookies :: "string \<Rightarrow> (string \<rightharpoonup> string)" where
  "cruet_parse_cookies cookie_str = cruet_parse_cookies_loop cookie_str Map.empty"



subsection \<open>The cookie grammar, as the specification words it\<close>

text \<open>
  Split on every semicolon; split each segment at its first equals sign; trim the spaces and
  tabs around name and value; strip one layer of double quotes around the value; skip a
  segment without an equals sign; a later name overwrites an earlier one.
\<close>

definition trim_ws :: "string \<Rightarrow> string" where
  "trim_ws s = rtrim_ws (dropWhile cookie_ws s)"

definition unquote :: "string \<Rightarrow> string" where
  "unquote v = (if 2 \<le> length v \<and> hd v = CHR 0x22 \<and> last v = CHR 0x22 then butlast (tl v) else v)"

definition spec_cookie_name :: "string \<Rightarrow> string" where
  "spec_cookie_name seg = trim_ws (takeWhile (\<lambda>c. c \<noteq> CHR ''='') seg)"

definition spec_cookie_value :: "string \<Rightarrow> string" where
  "spec_cookie_value seg = trim_ws (drop 1 (dropWhile (\<lambda>c. c \<noteq> CHR ''='') seg))"

definition spec_cookie_segment :: "string \<Rightarrow> (string \<rightharpoonup> string) \<Rightarrow> (string \<rightharpoonup> string)" where
  "spec_cookie_segment seg d =
     (if CHR ''='' \<notin> set seg then d
      else d(spec_cookie_name seg \<mapsto> unquote (spec_cookie_value seg)))"

definition spec_parse_cookies :: "string \<Rightarrow> (string \<rightharpoonup> string)" where
  "spec_parse_cookies s = foldl (\<lambda>d seg. spec_cookie_segment seg d) Map.empty (split_on (CHR '';'') s)"

text \<open>
  A segment is plain when, if it has an equals sign, its name is not empty and its trimmed
  value either does not start with a double quote or is one quoted run: a double quote, text
  without double quotes, a double quote.
\<close>

definition cookie_segment_plain :: "string \<Rightarrow> bool" where
  "cookie_segment_plain seg =
     (CHR ''='' \<in> set seg \<longrightarrow>
        spec_cookie_name seg \<noteq> [] \<and>
        (let v = spec_cookie_value seg
         in v = [] \<or> hd v \<noteq> CHR 0x22
            \<or> (2 \<le> length v \<and> last v = CHR 0x22 \<and> CHR 0x22 \<notin> set (butlast (tl v)))))"

text \<open>The segments joined by semicolons again.\<close>

fun join_semicolon :: "string list \<Rightarrow> string" where
  "join_semicolon [] = []"
| "join_semicolon [x] = x"
| "join_semicolon (x # y # ys) = x @ CHR '';'' # join_semicolon (y # ys)"

section \<open>Routing: rules (\<open>rule.c\<close>)\<close>

text \<open>
  Python exceptions raised by the routing code. A function that raises returns \<open>Inl\<close>.
\<close>

datatype py_error = LookupError string | KeyError string | ValueError string

subsection \<open>Method bitmask\<close>

definition CRUET_METHOD_GET :: "16 word" where "CRUET_METHOD_GET = 0x01"
definition CRUET_METHOD_HEAD :: "16 word" where "CRUET_METHOD_HEAD = 0x02"
definition CRUET_METHOD_POST :: "16 word" where "CRUET_METHOD_POST = 0x04"
definition CRUET_METHOD_PUT :: "16 word" where "CRUET_METHOD_PUT = 0x08"
definition CRUET_METHOD_DELETE :: "16 word" where "CRUET_METHOD_DELETE = 0x10"
definition CRUET_METHOD_PATCH :: "16 word" where "CRUET_METHOD_PATCH = 0x20"
definition CRUET_METHOD_OPTIONS :: "16 word" where "CRUET_METHOD_OPTIONS = 0x40"
definition CRUET_METHOD_TRACE :: "16 word" where "CRUET_METHOD_TRACE = 0x80"

text \<open>
  The source switches on the length and compares the bytes one by one; that is equality with
  the method name.
\<close>

definition cruet_method_str_to_bit :: "string \<Rightarrow> 16 word" where
  "cruet_method_str_to_bit s =
     (if s = ''GET'' then CRUET_METHOD_GET
      else if s = ''PUT'' then CRUET_METHOD_PUT
      else if s = ''HEAD'' then CRUET_METHOD_HEAD
      else if s = ''POST'' then CRUET_METHOD_POST
      else if s = ''PATCH'' then CRUET_METHOD_PATCH
      else if s = ''TRACE'' then CRUET_METHOD_TRACE
      else if s = ''DELETE'' then CRUET_METHOD_DELETE
      else if s = ''OPTIONS'' then CRUET_METHOD_OPTIONS
      else 0)"

subsection \<open>Compiled rules\<close>

datatype SegmentType =
  SEG_STATIC | SEG_DYNAMIC_STRING | SEG_DYNAMIC_INT | SEG_DYNAMIC_FLOAT
  | SEG_DYNAMIC_UUID | SEG_DYNAMIC_PATH | SEG_DYNAMIC_ANY

text \<open>
  \<open>static_len\<close> is the length of \<open>static_text\<close>. A field that the source leaves \<open>NULL\<close> is
  the empty string, a \<open>NULL\<close> \<open>any_items\<close> is \<open>None\<close>. The converter parameters of the
  struct (\<open>int_min\<close>, \<open>str_minlength\<close> and the others) are never written nor read by the
  rule code and are left out. The fields \<open>rule_str\<close>, \<open>endpoint\<close>, \<open>static_text\<close> and
  \<open>var_name\<close> are C strings: the list is the bytes before the terminating NUL, the UTF-8
  encoding of the text that \<open>Rule.__init__\<close> was given.
\<close>

record RuleSegment =
  seg_type :: SegmentType
  static_text :: string
  var_name :: string
  any_items :: "string list option"

record Cruet_Rule =
  rule_str :: string
  endpoint :: "string option"
  methods_bitmask :: "16 word"
  methods_extra :: "string set option"
  strict_slashes :: bool
  segments :: "RuleSegment list"
  is_static :: bool

definition cruet_rule_has_method :: "Cruet_Rule \<Rightarrow> 16 word \<Rightarrow> string \<Rightarrow> bool" where
  "cruet_rule_has_method rule method_bit method_py =
     (if method_bit \<noteq> 0 then methods_bitmask rule AND method_bit \<noteq> 0
      else (case methods_extra rule of None \<Rightarrow> False | Some extra \<Rightarrow> method_py \<in> extra))"









text \<open>
  \<open>Rule.__init__\<close>. The \<open>s\<close> argument format rejects a pattern or an endpoint with an
  embedded NUL. The argument \<open>methods\<close> is \<open>None\<close> or the list of the \<open>str\<close> items that
  iterating over it yields. The method \<open>upper\<close> of a Python \<open>str\<close> is code of the interpreter
  and not of this library: it is the parameter \<open>str_upper\<close>, a function on UTF-8 encoded
  text. \<open>PyUnicode_AsUTF8\<close> with \<open>strlen\<close> reads the upper-cased name up to its first NUL.
  \<open>c_toupper\<close> is the upper-casing of the ASCII letters that \<open>MapAdapter.match\<close> does in C.
\<close>

definition c_toupper :: "char \<Rightarrow> char" where
  "c_toupper c =
     (if 97 \<le> (of_char c :: nat) \<and> (of_char c :: nat) \<le> 122
      then char_of (of_char c - (32::nat)) else c)"

definition c_str :: "string \<Rightarrow> string" where
  "c_str s = takeWhile (\<lambda>c. c \<noteq> NUL) s"





subsection \<open>Captured values\<close>

text \<open>
  The Python objects that a match produces and that \<open>build\<close> turns into text. A \<open>str\<close> is
  identified with its UTF-8 bytes. A \<open>uuid.UUID\<close> is identified with its canonical lower-case
  text, which is what \<open>str\<close> returns for it and what distinguishes two UUIDs. A float is a
  value of a type \<open>'f\<close> that is not looked into: \<open>strtod\<close> and the \<open>str\<close> of a float are
  functions of the C library and of Python, taken as parameters \<open>strtod\<close> (the value and the
  number of bytes consumed) and \<open>float_str\<close>.
\<close>

datatype 'f pyval = PyStr string | PyLong int | PyFloat 'f | PyUUID string

record 'f py_ext =
  strtod :: "string \<Rightarrow> 'f \<times> nat"
  float_str :: "'f \<Rightarrow> string"




definition is_hex_digit :: "char \<Rightarrow> bool" where
  "is_hex_digit c =
     (let n = (of_char c :: nat)
      in (48 \<le> n \<and> n \<le> 57) \<or> (97 \<le> n \<and> n \<le> 102) \<or> (65 \<le> n \<and> n \<le> 70))"

definition uuid_shape :: "string \<Rightarrow> bool" where
  "uuid_shape s =
     (length s = 36 \<and>
      list_all (\<lambda>i. if i = 8 \<or> i = 13 \<or> i = 18 \<or> i = 23 then s ! i = CHR ''-''
                     else is_hex_digit (s ! i)) [0..<36])"

text \<open>
  \<open>convert_segment_value\<close>: \<open>None\<close> is the \<open>Py_None\<close> of a token that the converter rejects.
  The source turns the captured bytes into a \<open>str\<close> with \<open>PyUnicode_FromStringAndSize\<close>, which
  raises on bytes that are not UTF-8. The path of a call is the UTF-8 encoding of a \<open>str\<close>, and
  a capture of it can fail to be UTF-8 only where a multi-byte character is cut. On a path of
  ASCII characters no capture is cut and the captured bytes are the captured text; the model
  describes these calls, and the statements about \<open>match\<close> below are restricted to them.
\<close>

definition convert_segment_value :: "'f py_ext \<Rightarrow> RuleSegment \<Rightarrow> string \<Rightarrow> 'f pyval option" where
  "convert_segment_value ext seg val =
     (case seg_type seg of
        SEG_DYNAMIC_STRING \<Rightarrow> Some (PyStr val)
      | SEG_DYNAMIC_INT \<Rightarrow>
          if list_all c_isdigit val then Some (PyLong (c_strtol val)) else None
      | SEG_DYNAMIC_FLOAT \<Rightarrow>
          (case strtod ext (c_str val) of
             (v, consumed) \<Rightarrow> if consumed = length val then Some (PyFloat v) else None)
      | SEG_DYNAMIC_UUID \<Rightarrow>
          if uuid_shape val then Some (PyUUID (map c_tolower val)) else None
      | SEG_DYNAMIC_PATH \<Rightarrow> Some (PyStr val)
      | SEG_DYNAMIC_ANY \<Rightarrow>
          (case any_items seg of
             Some items \<Rightarrow> if val \<in> set items then Some (PyStr val) else None
           | None \<Rightarrow> Some (PyStr val))
      | SEG_STATIC \<Rightarrow> Some (PyStr val))"

subsection \<open>Matching and building one rule\<close>

text \<open>
  The loop over the segments of \<open>Cruet_Rule_match_internal\<close>. The argument \<open>p\<close> is the
  unread suffix of the path; the result is the values dict and the suffix left over, or
  \<open>None\<close> when a segment does not match.
\<close>

definition trailing_static_len :: "RuleSegment list \<Rightarrow> nat" where
  "trailing_static_len segs =
     sum_list (map (\<lambda>s. length (static_text s)) (filter (\<lambda>s. seg_type s = SEG_STATIC) segs))"

fun match_segments ::
  "'f py_ext \<Rightarrow> RuleSegment list \<Rightarrow> string \<Rightarrow> (string \<rightharpoonup> 'f pyval)
     \<Rightarrow> ((string \<rightharpoonup> 'f pyval) \<times> string) option" where
  "match_segments ext [] p vals = Some (vals, p)"
| "match_segments ext (seg # segs) p vals =
     (if seg_type seg = SEG_STATIC then
        (if length p < length (static_text seg)
            \<or> take (length (static_text seg)) p \<noteq> static_text seg
         then None
         else match_segments ext segs (drop (length (static_text seg)) p) vals)
      else if seg_type seg = SEG_DYNAMIC_PATH then
        (let remaining = length p; trail = trailing_static_len segs
         in if remaining \<le> trail then None
            else
              let capture_len = remaining - trail
              in (case convert_segment_value ext seg (take capture_len p) of
                    None \<Rightarrow> None
                  | Some v \<Rightarrow>
                      match_segments ext segs (drop capture_len p) (vals(var_name seg \<mapsto> v))))
      else
        (let tok = takeWhile (\<lambda>c. c \<noteq> CHR ''/'') p
         in if tok = [] then None
            else (case convert_segment_value ext seg tok of
                    None \<Rightarrow> None
                  | Some v \<Rightarrow>
                      match_segments ext segs (drop (length tok) p) (vals(var_name seg \<mapsto> v)))))"

definition Cruet_Rule_match_internal ::
  "'f py_ext \<Rightarrow> Cruet_Rule \<Rightarrow> string \<Rightarrow> (string \<rightharpoonup> 'f pyval) option" where
  "Cruet_Rule_match_internal ext self path =
     (case match_segments ext (segments self) path Map.empty of
        None \<Rightarrow> None
      | Some (vals, p) \<Rightarrow>
          if p \<noteq> [] then (if \<not> strict_slashes self \<and> p = ''/'' then Some vals else None)
          else Some vals)"



section \<open>Routing: the map and its static index\<close>

subsection \<open>The open-addressed hash table\<close>












subsection \<open>Map and MapAdapter\<close>







definition rule_endpoint :: "Cruet_Rule \<Rightarrow> string" where
  "rule_endpoint r = (case endpoint r of None \<Rightarrow> [] | Some e \<Rightarrow> e)"

definition not_found :: py_error where
  "not_found = LookupError ''404 Not Found''"

definition method_not_allowed :: py_error where
  "method_not_allowed = LookupError ''405 Method Not Allowed''"



text \<open>The loop over the dynamic rules; \<open>any\<close> is the flag \<open>method_matched_any\<close>.\<close>

fun match_dynamic ::
  "'f py_ext \<Rightarrow> Cruet_Rule list \<Rightarrow> string \<Rightarrow> 16 word \<Rightarrow> string \<Rightarrow> bool
     \<Rightarrow> py_error + string \<times> (string \<rightharpoonup> 'f pyval)" where
  "match_dynamic ext [] path method_bit method_py any =
     (if any then Inl method_not_allowed else Inl not_found)"
| "match_dynamic ext (rule # rest) path method_bit method_py any =
     (case Cruet_Rule_match_internal ext rule path of
        None \<Rightarrow> match_dynamic ext rest path method_bit method_py any
      | Some result \<Rightarrow>
          if \<not> cruet_rule_has_method rule method_bit method_py
          then match_dynamic ext rest path method_bit method_py True
          else Inr (rule_endpoint rule, result))"



subsection \<open>Invariants of the static index\<close>








text \<open>The entries of the occupied slots, in slot order.\<close>

definition somes :: "'a option list \<Rightarrow> 'a list" where
  "somes xs = map the (filter (\<lambda>x. x \<noteq> None) xs)"

text \<open>The first registered static rule with a given pattern.\<close>

definition first_static :: "Cruet_Rule list \<Rightarrow> string \<Rightarrow> Cruet_Rule option" where
  "first_static rs k = find (\<lambda>r. is_static r \<and> rule_str r = k) rs"


subsection \<open>A map built from a list of rules, bound and queried\<close>












text \<open>The result of the scan of the dynamic rules, as \<open>match\<close> runs it after the static probes.\<close>

definition dynamic_scan ::
  "'f py_ext \<Rightarrow> Cruet_Rule list \<Rightarrow> string \<Rightarrow> string \<Rightarrow> bool
     \<Rightarrow> py_error + string \<times> (string \<rightharpoonup> 'f pyval)" where
  "dynamic_scan ext rs path method any =
     match_dynamic ext (filter (\<lambda>r. \<not> is_static r) rs) path
       (cruet_method_str_to_bit (map c_toupper (take 31 method)))
       (map c_toupper (take 31 method)) any"



section \<open>Properties of the request parser\<close>

lemma takeWhile_length_ge_iff: "(length xs \<le> length (takeWhile P xs)) = (\<forall>x\<in>set xs. P x)"
proof -
  have "length (takeWhile P xs) \<le> length xs" by (rule length_takeWhile_le)
  moreover have "(length (takeWhile P xs) = length xs) = (takeWhile P xs = xs)"
    by (metis takeWhile_eq_take take_all_iff order_refl)
  ultimately show ?thesis by (auto simp: takeWhile_eq_all_conv)
qed



lemma find_crlf_Some_le: "find_crlf xs = Some n \<Longrightarrow> n + 2 \<le> length xs"
  by (induction xs arbitrary: n rule: find_crlf.induct) (auto split: if_splits)

lemma find_crlf_append_CRLF:
  "find_crlf l = None \<Longrightarrow> find_crlf (l @ CR # LF # r) = Some (length l)"
  by (induction l rule: find_crlf.induct) (auto split: if_splits)


lemma count_SP_lt2:
  "(length (filter (\<lambda>c. c = SP) l) < 2) =
     (SP \<notin> set l \<or> SP \<notin> set (drop (length (takeWhile (\<lambda>c. c \<noteq> SP) l) + 1) l))"
proof (induction l)
  case Nil
  show ?case by simp
next
  case (Cons a l)
  show ?case
  proof (cases "a = SP")
    case True
    have "(filter (\<lambda>c. c = SP) l = []) = (SP \<notin> set l)"
      by (auto simp: filter_empty_conv)
    with True show ?thesis by simp
  next
    case False
    with Cons show ?thesis by simp
  qed
qed

lemma version_token_eq:
  "version_token l = drop (length (takeWhile (\<lambda>c. c \<noteq> SP) l) + 1 +
       length (takeWhile (\<lambda>c. c \<noteq> SP) (drop (length (takeWhile (\<lambda>c. c \<noteq> SP) l) + 1) l)) + 1) l"
  unfolding version_token_def dropWhile_eq_drop drop_drop
  by (simp add: ac_simps)

lemma request_line_guards:
  assumes "length line = n"
  shows "malformed_request_line line =
     (n \<le> length (takeWhile (\<lambda>c. c \<noteq> SP) line)
      \<or> n \<le> length (takeWhile (\<lambda>c. c \<noteq> SP) line) + 1 +
            length (takeWhile (\<lambda>c. c \<noteq> SP) (drop (length (takeWhile (\<lambda>c. c \<noteq> SP) line) + 1) line))
      \<or> n - (length (takeWhile (\<lambda>c. c \<noteq> SP) line) + 1 +
            length (takeWhile (\<lambda>c. c \<noteq> SP) (drop (length (takeWhile (\<lambda>c. c \<noteq> SP) line) + 1) line)) + 1) < 6)"
proof -
  let ?m = "length (takeWhile (\<lambda>c. c \<noteq> SP) line)"
  let ?u = "length (takeWhile (\<lambda>c. c \<noteq> SP) (drop (?m + 1) line))"
  have c1: "(n \<le> ?m) = (SP \<notin> set line)"
    using takeWhile_length_ge_iff[of line "\<lambda>c. c \<noteq> SP"] assms by auto
  have c2: "(n \<le> ?m + 1 + ?u) = (SP \<notin> set (drop (?m + 1) line))" if "\<not> n \<le> ?m"
  proof -
    have "length (drop (?m + 1) line) = n - (?m + 1)" using assms by simp
    then have "(n - (?m + 1) \<le> ?u) = (SP \<notin> set (drop (?m + 1) line))"
      using takeWhile_length_ge_iff[of "drop (?m + 1) line" "\<lambda>c. c \<noteq> SP"] by auto
    with that show ?thesis by auto
  qed
  have vt: "length (version_token line) = n - (?m + 1 + ?u + 1)"
    using assms by (simp add: version_token_eq)
  have spec: "malformed_request_line line =
      (SP \<notin> set line \<or> SP \<notin> set (drop (?m + 1) line) \<or> n - (?m + 1 + ?u + 1) < 6)"
    unfolding malformed_request_line_def count_SP_lt2 vt by blast
  show ?thesis
  proof (cases "n \<le> ?m")
    case True
    then show ?thesis using spec c1 by simp
  next
    case False
    then show ?thesis using spec c1 c2[OF False] by simp
  qed
qed

lemma parse_None_iff:
  assumes "find_crlf data = Some n"
  shows "(cruet_parse_http_request data = None) = malformed_request_line (take n data)"
proof -
  from assms have n: "n + 2 \<le> length data" by (rule find_crlf_Some_le)
  then have len: "length (take n data) = n" by simp
  from n have ne: "data \<noteq> []" by auto
  show ?thesis
    unfolding request_line_guards[OF len]
    using ne assms
    by (simp add: cruet_parse_http_request_def Let_def split: prod.splits)
qed

lemma parse_incomplete: "find_crlf data = None \<Longrightarrow> cruet_parse_http_request data = None"
  by (simp add: cruet_parse_http_request_def)

lemma find_crlf_take: "find_crlf xs = Some n \<Longrightarrow> find_crlf (take n xs) = None"
proof (induction xs arbitrary: n rule: find_crlf.induct)
  case (1 a b bs)
  show ?case
  proof (cases "a = CR \<and> b = LF")
    case True
    with 1 show ?thesis by simp
  next
    case False
    with "1.prems" obtain k where k: "find_crlf (b # bs) = Some k" "n = Suc k" by auto
    from "1.IH"[OF False k(1)] have ih: "find_crlf (take k (b # bs)) = None" .
    show ?thesis
    proof (cases k)
      case 0
      then show ?thesis using k by simp
    next
      case (Suc j)
      then show ?thesis using k ih False by (cases "take j bs") auto
    qed
  qed
qed simp_all

lemma find_crlf_split:
  "find_crlf xs = Some n \<Longrightarrow> xs = take n xs @ CRLF @ drop (n + 2) xs"
proof (induction xs arbitrary: n rule: find_crlf.induct)
  case (1 a b bs)
  show ?case
  proof (cases "a = CR \<and> b = LF")
    case True
    with 1 show ?thesis by simp
  next
    case False
    with "1.prems" obtain k where k: "find_crlf (b # bs) = Some k" "n = Suc k" by auto
    from "1.IH"[OF False k(1)] show ?thesis using k by simp
  qed
qed simp_all

lemma parse_headers_line:
  assumes "header_line_ok h"
  shows "parse_headers (h @ CRLF @ r) st = parse_headers r (parse_header_line h st)"
proof -
  from assms have f: "find_crlf (h @ CRLF @ r) = Some (length h)" and ne: "h \<noteq> []"
    by (simp_all add: header_line_ok_def find_crlf_append_CRLF)
  show ?thesis
    using f ne by (subst parse_headers.simps) simp
qed

lemma parse_headers_blank: "parse_headers (CRLF @ b) st = (st, b)"
  by (subst parse_headers.simps) simp

lemma parse_headers_no_crlf: "find_crlf t = None \<Longrightarrow> parse_headers t st = (st, t)"
  by (subst parse_headers.simps) simp

lemma parse_headers_block:
  assumes "\<forall>h\<in>set hs. header_line_ok h"
  shows "parse_headers (header_block hs @ t) st =
         parse_headers t (foldl (\<lambda>s h. parse_header_line h s) st hs)"
  using assms
proof (induction hs arbitrary: st)
  case Nil
  show ?case by (simp add: header_block_def)
next
  case (Cons h hs)
  have "header_block (h # hs) @ t = h @ CRLF @ (header_block hs @ t)"
    by (simp add: header_block_def)
  then show ?case using Cons parse_headers_line[of h "header_block hs @ t" st] by simp
qed

lemma c_tolower_NUL: "c_tolower c = NUL \<Longrightarrow> c = NUL"
proof (cases "65 \<le> (of_char c :: nat) \<and> (of_char c :: nat) \<le> 90")
  case False
  assume "c_tolower c = NUL"
  with False show ?thesis by (auto simp: c_tolower_def)
next
  case True
  assume "c_tolower c = NUL"
  with True have "char_of (of_char c + (32::nat)) = NUL" by (simp add: c_tolower_def)
  then have "(of_char (char_of (of_char c + (32::nat))) :: nat) = of_char NUL" by simp
  then have "(of_char c + 32) mod 256 = (0::nat)" by (simp add: of_char_of)
  with True show ?thesis by presburger
qed

lemma strncasecmp_eq_map:
  "length s = n \<Longrightarrow> length t = n \<Longrightarrow> NUL \<notin> set t \<Longrightarrow>
   strncasecmp_eq s t n = (map c_tolower s = map c_tolower t)"
proof (induction n arbitrary: s t)
  case 0
  then show ?case by simp
next
  case (Suc n)
  then obtain a s' b t' where st: "s = a # s'" "t = b # t'"
    by (metis length_Suc_conv)
  with Suc.prems have b: "b \<noteq> NUL" and len: "length s' = n" "length t' = n" "NUL \<notin> set t'"
    by auto
  have "c_tolower a = c_tolower b \<Longrightarrow> a \<noteq> NUL"
    using b c_tolower_NUL[of b] by (auto simp: c_tolower_def)
  then show ?case using Suc.IH[OF len] st by auto
qed

lemma lower_literals:
  "map c_tolower ''Connection'' = ''connection''"
  "map c_tolower ''close'' = ''close''"
  "map c_tolower ''Content-Length'' = ''content-length''"
  by code_simp+

lemma strncasecmp_literals:
  "(length s = 10 \<and> strncasecmp_eq s ''Connection'' 10) = (map c_tolower s = ''connection'')"
  "(length s = 5 \<and> strncasecmp_eq s ''close'' 5) = (map c_tolower s = ''close'')"
  "(length s = 14 \<and> strncasecmp_eq s ''Content-Length'' 14) = (map c_tolower s = ''content-length'')"
proof -
  have l: "\<And>t. map c_tolower s = t \<Longrightarrow> length s = length t"
    using length_map[of c_tolower s] by auto
  show "(length s = 10 \<and> strncasecmp_eq s ''Connection'' 10) = (map c_tolower s = ''connection'')"
    using strncasecmp_eq_map[of s 10 "''Connection''", unfolded lower_literals] l[of "''connection''"]
    by auto
  show "(length s = 5 \<and> strncasecmp_eq s ''close'' 5) = (map c_tolower s = ''close'')"
    using strncasecmp_eq_map[of s 5 "''close''", unfolded lower_literals] l[of "''close''"]
    by auto
  show "(length s = 14 \<and> strncasecmp_eq s ''Content-Length'' 14) = (map c_tolower s = ''content-length'')"
    using strncasecmp_eq_map[of s 14 "''Content-Length''", unfolded lower_literals] l[of "''content-length''"]
    by auto
qed

lemma parse_header_line_no_colon:
  "CHR '':'' \<notin> set h \<Longrightarrow> parse_header_line h st = st"
proof -
  assume "CHR '':'' \<notin> set h"
  then have "length h \<le> length (takeWhile (\<lambda>c. c \<noteq> CHR '':'') h)"
    by (auto simp: takeWhile_length_ge_iff)
  then show ?thesis by (simp add: parse_header_line_def)
qed

lemma parse_header_line_colon:
  assumes "CHR '':'' \<in> set h"
  shows "parse_header_line h st =
     (let st1 = st\<lparr>hs_headers := (hs_headers st)(header_name h \<mapsto> header_value h)\<rparr>;
          st2 = (if is_content_length h \<and> length (header_value h) < 32
                 then st1\<lparr>hs_content_length := c_strtol (header_value h)\<rparr> else st1)
      in if is_connection_close h then st2\<lparr>hs_keep_alive := False\<rparr> else st2)"
proof -
  define nm where "nm = header_name h"
  define v where "v = header_value h"
  from assms have lt: "\<not> length h \<le> length (takeWhile (\<lambda>c. c \<noteq> CHR '':'') h)"
    by (auto simp: takeWhile_length_ge_iff)
  have a: "length (takeWhile (\<lambda>c. c \<noteq> CHR '':'') h) = length nm"
    by (simp add: nm_def header_name_def)
  have b: "take (length nm) h = nm"
    by (simp add: nm_def header_name_def takeWhile_eq_take[symmetric])
  have c: "dropWhile (\<lambda>c. c = SP \<or> c = TAB) (drop (length nm + 1) h) = v"
    by (simp add: v_def nm_def header_value_def)
  have code: "parse_header_line h st =
     (let st1 = st\<lparr>hs_headers := (hs_headers st)(nm \<mapsto> v)\<rparr>;
          st2 = (if length nm = 14 \<and> strncasecmp_eq nm ''Content-Length'' 14
                 then (if length v < 32 then st1\<lparr>hs_content_length := c_strtol v\<rparr> else st1)
                 else st1)
      in if length nm = 10 \<and> strncasecmp_eq nm ''Connection'' 10
         then (if length v = 5 \<and> strncasecmp_eq v ''close'' 5
               then st2\<lparr>hs_keep_alive := False\<rparr> else st2)
         else st2)"
    unfolding parse_header_line_def Let_def a b c using lt a by simp
  have cl: "is_content_length h = (length nm = 14 \<and> strncasecmp_eq nm ''Content-Length'' 14)"
    using assms by (simp add: is_content_length_def strncasecmp_literals nm_def)
  have cc: "is_connection_close h = ((length nm = 10 \<and> strncasecmp_eq nm ''Connection'' 10)
        \<and> (length v = 5 \<and> strncasecmp_eq v ''close'' 5))"
    using assms unfolding strncasecmp_literals by (simp add: is_connection_close_def nm_def v_def)
  show ?thesis
    unfolding code cl cc nm_def[symmetric] v_def[symmetric] Let_def by auto
qed

lemma keep_alive_line:
  "hs_keep_alive (parse_header_line h st) = (hs_keep_alive st \<and> \<not> is_connection_close h)"
proof (cases "CHR '':'' \<in> set h")
  case False
  then show ?thesis by (simp add: parse_header_line_no_colon is_connection_close_def)
next
  case True
  show ?thesis unfolding parse_header_line_colon[OF True] Let_def by simp
qed

lemma content_length_line:
  "hs_content_length (parse_header_line h st) =
     (if is_content_length h \<and> length (header_value h) < 32 then c_strtol (header_value h)
      else hs_content_length st)"
proof (cases "CHR '':'' \<in> set h")
  case False
  then show ?thesis by (simp add: parse_header_line_no_colon is_content_length_def)
next
  case True
  show ?thesis unfolding parse_header_line_colon[OF True] Let_def by simp
qed

lemma keep_alive_fold:
  "hs_keep_alive (foldl (\<lambda>s h. parse_header_line h s) st hs) =
     (hs_keep_alive st \<and> \<not> (\<exists>h\<in>set hs. is_connection_close h))"
  by (induction hs arbitrary: st) (auto simp: keep_alive_line)

lemma content_length_fold:
  "hs_content_length (foldl (\<lambda>s h. parse_header_line h s) st hs) =
     (case declared_content_length hs of None \<Rightarrow> hs_content_length st | Some n \<Rightarrow> n)"
proof (induction hs rule: rev_induct)
  case Nil
  show ?case by (simp add: declared_content_length_def)
next
  case (snoc h hs)
  show ?case
    using snoc
    by (simp add: content_length_line declared_content_length_def split: list.splits)
qed


lemma parse_request_fields:
  assumes "request_line_ok line" and "parse_headers rest header_state_init = (st, hp)"
  shows "\<exists>r. cruet_parse_http_request (line @ CRLF @ rest) = Some r
           \<and> rq_keep_alive r = hs_keep_alive st
           \<and> rq_body r =
               (if hs_content_length st > 0 \<and> hs_content_length st \<le> int (length hp)
                then take (nat (hs_content_length st)) hp
                else if hs_content_length st = 0 \<or> hs_content_length st = - 1 then []
                else hp)"
proof -
  from assms(1) have f: "find_crlf (line @ CR # LF # rest) = Some (length line)"
    and wf: "\<not> malformed_request_line line"
    by (simp_all add: request_line_ok_def find_crlf_append_CRLF)
  have g: "\<not> (length line \<le> length (takeWhile (\<lambda>c. c \<noteq> SP) line)
      \<or> length line \<le> length (takeWhile (\<lambda>c. c \<noteq> SP) line) + 1 +
            length (takeWhile (\<lambda>c. c \<noteq> SP) (drop (length (takeWhile (\<lambda>c. c \<noteq> SP) line) + 1) line))
      \<or> length line - (length (takeWhile (\<lambda>c. c \<noteq> SP) line) + 1 +
            length (takeWhile (\<lambda>c. c \<noteq> SP) (drop (length (takeWhile (\<lambda>c. c \<noteq> SP) line) + 1) line)) + 1) < 6)"
    using wf request_line_guards[of line "length line"] by simp
  show ?thesis
    using f g assms(2)
    by (simp add: cruet_parse_http_request_def Let_def)
qed

lemma header_block_shape:
  "\<exists>hs tail. hp = header_block hs @ tail \<and> (\<forall>h\<in>set hs. header_line_ok h)
      \<and> ((\<exists>b. tail = CRLF @ b) \<or> find_crlf tail = None)"
proof (induction "length hp" arbitrary: hp rule: less_induct)
  case less
  show ?case
  proof (cases "find_crlf hp")
    case None
    then have "hp = header_block [] @ hp \<and> (\<forall>h\<in>set []. header_line_ok h) \<and> find_crlf hp = None"
      by (simp add: header_block_def)
    then show ?thesis by blast
  next
    case (Some n)
    note sp = find_crlf_split[OF Some]
    show ?thesis
    proof (cases "n = 0")
      case True
      with sp have "hp = header_block [] @ hp \<and> (\<forall>h\<in>set []. header_line_ok h) \<and> hp = CRLF @ drop 2 hp"
        by (simp add: header_block_def numeral_2_eq_2)
      then show ?thesis by blast
    next
      case False
      from find_crlf_Some_le[OF Some] have "length (drop (n + 2) hp) < length hp" by simp
      from less[OF this] obtain hs tail where ih: "drop (n + 2) hp = header_block hs @ tail"
        "\<forall>h\<in>set hs. header_line_ok h" "(\<exists>b. tail = CRLF @ b) \<or> find_crlf tail = None" by blast
      have ok: "header_line_ok (take n hp)"
        using False find_crlf_take[OF Some] find_crlf_Some_le[OF Some]
        by (auto simp: header_line_ok_def)
      have "hp = header_block (take n hp # hs) @ tail"
        using sp ih(1) by (simp add: header_block_def)
      with ok ih(2,3) have "hp = header_block (take n hp # hs) @ tail
         \<and> (\<forall>h\<in>set (take n hp # hs). header_line_ok h)
         \<and> ((\<exists>b. tail = CRLF @ b) \<or> find_crlf tail = None)" by simp
      then show ?thesis by blast
    qed
  qed
qed


text \<open>
  Claim C1. On the input \<open>GET /x HTTP/1.1\<close> CR LF, a complete request line with no header
  block and no terminating blank line, the header loop is not entered (\<open>hp\<close> is already at the
  end of the data) and the parser returns a completed result with no headers, an empty body and
  \<open>keep_alive\<close> true. It does not return \<open>None\<close>, the result that the function's own
  documentation promises for incomplete input.
\<close>

theorem request_line_only_is_parsed:
  "cruet_parse_http_request (''GET /x HTTP/1.1'' @ CRLF) =
     Some \<lparr>rq_method = ''GET'', rq_path = ''/x'', rq_version = ''HTTP/1.1'',
           rq_query_string = [], rq_headers = Map.empty, rq_body = [], rq_keep_alive = True\<rparr>"
  by (simp add: cruet_parse_http_request_def header_state_init_def parse_headers.simps)

text \<open>
  Claim C6, as the code has it. When the first CR LF terminated line has fewer than two spaces or
  a version token shorter than six bytes, the parser returns \<open>None\<close>. That is the very
  result it returns for the same line before its CR LF has arrived, so the malformed case is not
  an error outcome of its own and cannot be told apart from the incomplete one.
\<close>

theorem malformed_request_line_returns_None:
  assumes "find_crlf data = Some n" and "malformed_request_line (take n data)"
  shows "cruet_parse_http_request data = None \<and> cruet_parse_http_request (take n data) = None"
  using assms parse_None_iff[OF assms(1)] parse_incomplete[OF find_crlf_take[OF assms(1)]]
  by simp

theorem malformed_request_line_witness:
  "cruet_parse_http_request (''GET /x'' @ CRLF @ ''Host: a'' @ CRLF @ CRLF) = None
   \<and> cruet_parse_http_request ''GET /x'' = None"
  using malformed_request_line_returns_None [of "''GET /x'' @ CRLF @ ''Host: a'' @ CRLF @ CRLF" 6]
  by (simp add: malformed_request_line_def version_token_def)

text \<open>
  Claim C6 as stated fails: the malformed line \<open>GET\<close> CR LF and the incomplete input
  \<open>GET\<close> both give \<open>None\<close>.
\<close>

theorem malformed_is_not_distinguished:
  "cruet_parse_http_request (''GET'' @ CRLF) = None \<and> cruet_parse_http_request ''GET'' = None"
  by (simp add: cruet_parse_http_request_def)

text \<open>
  Claim C10. For a well-formed request line followed by any header lines and then either the
  blank line or an unterminated rest, the parser returns a result whose \<open>keep_alive\<close> flag
  is false exactly when one of the header lines is named Connection and has the value close,
  both compared without regard to case. The request line, and so the version token, is
  arbitrary: an HTTP/1.0 request without such a header has \<open>keep_alive\<close> true.
  By \<open>header_block_shape\<close> and \<open>find_crlf_split\<close> every input that has a first line is of
  this form.
\<close>

theorem keep_alive_iff_no_connection_close:
  assumes "request_line_ok line"
      and "\<forall>h\<in>set hs. header_line_ok h"
      and "tail = CRLF @ b \<or> find_crlf tail = None"
  shows "\<exists>r. cruet_parse_http_request (line @ CRLF @ header_block hs @ tail) = Some r
           \<and> rq_keep_alive r = (\<not> (\<exists>h\<in>set hs. is_connection_close h))"
proof -
  let ?st = "foldl (\<lambda>s h. parse_header_line h s) header_state_init hs"
  have "\<exists>hp. parse_headers tail ?st = (?st, hp)"
    using assms(3) parse_headers_blank[of b ?st] parse_headers_no_crlf[of tail ?st] by auto
  then obtain hp where "parse_headers (header_block hs @ tail) header_state_init = (?st, hp)"
    using parse_headers_block[OF assms(2), of tail header_state_init] by auto
  from parse_request_fields[OF assms(1) this]
  show ?thesis by (auto simp: keep_alive_fold header_state_init_def)
qed


theorem keep_alive_witness:
  "(\<exists>r. cruet_parse_http_request
         (''GET / HTTP/1.0'' @ CRLF @ header_block [''Host: a''] @ CRLF @ []) = Some r
        \<and> rq_keep_alive r = True)
   \<and> (\<exists>r. cruet_parse_http_request
         (''GET / HTTP/1.1'' @ CRLF @ header_block [''Host: a'', ''connection:  CLOSE''] @ CRLF @ []) = Some r
        \<and> rq_keep_alive r = False)"
proof -
  have l0: "request_line_ok ''GET / HTTP/1.0''" and l1: "request_line_ok ''GET / HTTP/1.1''"
    by code_simp+
  have h0: "\<forall>h\<in>set [''Host: a'']. header_line_ok h"
    and h1: "\<forall>h\<in>set [''Host: a'', ''connection:  CLOSE'']. header_line_ok h"
    by code_simp+
  have c0: "(\<not> (\<exists>h\<in>set [''Host: a'']. is_connection_close h)) = True"
    and c1: "(\<not> (\<exists>h\<in>set [''Host: a'', ''connection:  CLOSE'']. is_connection_close h)) = False"
    by code_simp+
  show ?thesis
    using keep_alive_iff_no_connection_close [OF l0 h0, of "CRLF @ []" "[]"]
          keep_alive_iff_no_connection_close [OF l1 h1, of "CRLF @ []" "[]"]
    unfolding c0 c1 by simp
qed

text \<open>
  Claim C5, as the code has it. The declared length is read from the last Content-Length
  header whose value is shorter than 32 bytes (a longer value is not read at all). For a
  well-formed request line, any header block and the blank line, with a declared length
  \<open>N > 0\<close>: the returned body is the first \<open>N\<close> bytes after the blank line when that
  many are present, and all the bytes present otherwise; a result is returned in both cases.
  The comparison \<open>hp + content_length <= data + data_len\<close> is taken on offsets.
\<close>

theorem body_is_declared_prefix:
  assumes "request_line_ok line"
      and "\<forall>h\<in>set hs. header_line_ok h"
      and "declared_content_length hs = Some N"
      and "0 < N"
  shows "\<exists>r. cruet_parse_http_request (line @ CRLF @ header_block hs @ CRLF @ rest) = Some r
           \<and> rq_body r = (if N \<le> int (length rest) then take (nat N) rest else rest)"
proof -
  let ?st = "foldl (\<lambda>s h. parse_header_line h s) header_state_init hs"
  have "parse_headers (header_block hs @ CRLF @ rest) header_state_init = (?st, rest)"
    using parse_headers_block[OF assms(2), of "CRLF @ rest" header_state_init]
      parse_headers_blank[of rest ?st] by simp
  from parse_request_fields[OF assms(1) this]
  obtain r where r: "cruet_parse_http_request (line @ CRLF @ header_block hs @ CRLF @ rest) = Some r"
     "rq_body r =
               (if hs_content_length ?st > 0 \<and> hs_content_length ?st \<le> int (length rest)
                then take (nat (hs_content_length ?st)) rest
                else if hs_content_length ?st = 0 \<or> hs_content_length ?st = - 1 then []
                else rest)" by auto
  have "hs_content_length ?st = N"
    using assms(3) by (simp add: content_length_fold)
  with r assms(4) show ?thesis by auto
qed


theorem body_is_declared_prefix_witness:
  "(\<exists>r. cruet_parse_http_request
          (''POST /u HTTP/1.1'' @ CRLF @ header_block [''Host: a'', ''Content-Length: 10''] @ CRLF @ ''hello'')
          = Some r \<and> rq_body r = ''hello'')
   \<and> (\<exists>r. cruet_parse_http_request
          (''POST /u HTTP/1.1'' @ CRLF @ header_block [''content-length:3''] @ CRLF @ ''hello'')
          = Some r \<and> rq_body r = ''hel'')"
proof -
  have l: "request_line_ok ''POST /u HTTP/1.1''"
    by code_simp
  have h0: "\<forall>h\<in>set [''Host: a'', ''Content-Length: 10'']. header_line_ok h"
    and h1: "\<forall>h\<in>set [''content-length:3'']. header_line_ok h"
    by code_simp+
  have d0: "declared_content_length [''Host: a'', ''Content-Length: 10''] = Some 10"
    and d1: "declared_content_length [''content-length:3''] = Some 3"
    by code_simp+
  show ?thesis
    using body_is_declared_prefix [OF l h0 d0, of "''hello''"]
          body_is_declared_prefix [OF l h1 d1, of "''hello''"]
    by simp
qed

text \<open>
  Claim C5 as stated fails on a declared length written with 32 digits: the value does not fit
  the 32-byte buffer, \<open>content_length\<close> stays \<open>-1\<close> and the body is empty although five
  bytes are present.
\<close>

theorem long_content_length_is_ignored:
  "map_option rq_body (cruet_parse_http_request
      (''POST /u HTTP/1.1'' @ CRLF @ ''Content-Length: 10000000000000000000000000000000'' @ CRLF
        @ CRLF @ ''hello'')) = Some []"
  by code_simp

section \<open>Properties of the cookie parser\<close>

lemma loop_skip:
  "cruet_parse_cookies_loop (dropWhile cookie_skip p) d = cruet_parse_cookies_loop p d"
  by (subst (1 2) cruet_parse_cookies_loop.simps) (auto simp: Let_def)

lemma loop_step:
  assumes "p \<noteq> []" "\<not> cookie_skip (hd p)" "cookie_entry p d = (p4, d')"
  shows "cruet_parse_cookies_loop p d = cruet_parse_cookies_loop p4 d'"
proof -
  from assms(1,2) have "dropWhile cookie_skip p = p" by (cases p) auto
  then show ?thesis using assms by (subst cruet_parse_cookies_loop.simps) (simp add: Let_def)
qed

lemma rtrim_ws_append_ws: "\<forall>c\<in>set w. cookie_ws c \<Longrightarrow> rtrim_ws (v @ w) = rtrim_ws v"
  by (simp add: rtrim_ws_def dropWhile_append)

lemma rtrim_ws_split: "\<exists>w. v = rtrim_ws v @ w \<and> (\<forall>c\<in>set w. cookie_ws c)"
proof -
  have "rev v = takeWhile cookie_ws (rev v) @ dropWhile cookie_ws (rev v)" by simp
  then have "v = rev (dropWhile cookie_ws (rev v)) @ rev (takeWhile cookie_ws (rev v))"
    by (metis rev_append rev_rev_ident)
  moreover have "\<forall>c\<in>set (rev (takeWhile cookie_ws (rev v))). cookie_ws c"
    by (auto dest: set_takeWhileD)
  ultimately show ?thesis unfolding rtrim_ws_def by blast
qed

lemma rtrim_ws_hd: "v \<noteq> [] \<Longrightarrow> \<not> cookie_ws (hd v) \<Longrightarrow> rtrim_ws v \<noteq> [] \<and> hd (rtrim_ws v) = hd v"
proof -
  assume a: "v \<noteq> []" "\<not> cookie_ws (hd v)"
  obtain w where w: "v = rtrim_ws v @ w" "\<forall>c\<in>set w. cookie_ws c" using rtrim_ws_split by blast
  have "rtrim_ws v \<noteq> []"
  proof
    assume "rtrim_ws v = []"
    with w have "v = w" by simp
    with a w(2) show False by (cases v) auto
  qed
  moreover from this w(1) have "hd v = hd (rtrim_ws v)" by (metis hd_append2)
  ultimately show ?thesis by simp
qed

lemma rtrim_ws_Nil_iff: "(rtrim_ws v = []) = (\<forall>c\<in>set v. cookie_ws c)"
  by (auto simp: rtrim_ws_def dropWhile_eq_Nil_conv)


lemma takeWhile_append_stop:
  "\<forall>x\<in>set xs. P x \<Longrightarrow> ys = [] \<or> \<not> P (hd ys) \<Longrightarrow> takeWhile P (xs @ ys) = xs"
  by (cases ys) (auto simp: takeWhile_append2)

lemma dropWhile_append_stop:
  "\<forall>x\<in>set xs. P x \<Longrightarrow> ys = [] \<or> \<not> P (hd ys) \<Longrightarrow> dropWhile P (xs @ ys) = ys"
  by (cases ys) (auto simp: dropWhile_append2)

lemma dropWhile_keep:
  "ys = [] \<or> \<not> P (hd ys) \<Longrightarrow> dropWhile P (xs @ ys) = dropWhile P xs @ ys"
  by (induction xs) (auto, cases ys, auto)

text \<open>The entry step on a segment that starts at a name character.\<close>

lemma cookie_entry_segment:
  assumes semi: "CHR '';'' \<notin> set seg"
      and rest: "rest = [] \<or> hd rest = CHR '';''"
      and ne: "seg \<noteq> []" and hd: "\<not> cookie_ws (hd seg)"
      and plain: "cookie_segment_plain seg"
  shows "\<exists>p4. cookie_entry (seg @ rest) d = (p4, spec_cookie_segment seg d)
            \<and> dropWhile cookie_skip p4 = dropWhile cookie_skip rest"
proof (cases "CHR ''='' \<in> set seg")
  case False
  let ?Q = "\<lambda>c. c \<noteq> CHR ''='' \<and> c \<noteq> CHR '';''"
  have tw: "takeWhile ?Q (seg @ rest) = seg"
    using False semi rest by (intro takeWhile_append_stop) auto
  have dw: "dropWhile (\<lambda>c. c \<noteq> CHR '';'') rest = rest"
    using rest by (cases rest) auto
  have "cookie_entry (seg @ rest) d = (rest, d)"
    using rest dw unfolding cookie_entry_def tw Let_def by auto
  then show ?thesis using False by (simp add: spec_cookie_segment_def)
next
  case True
  let ?Q = "\<lambda>c. c \<noteq> CHR ''='' \<and> c \<noteq> CHR '';''"
  define n where "n = takeWhile (\<lambda>c. c \<noteq> CHR ''='') seg"
  define vraw where "vraw = drop 1 (dropWhile (\<lambda>c. c \<noteq> CHR ''='') seg)"
  define v1 where "v1 = dropWhile cookie_ws vraw"
  have dwne: "dropWhile (\<lambda>c. c \<noteq> CHR ''='') seg \<noteq> []"
    using True by (auto simp: dropWhile_eq_Nil_conv)
  then have dweq: "dropWhile (\<lambda>c. c \<noteq> CHR ''='') seg = CHR ''='' # vraw"
    using hd_dropWhile[of "\<lambda>c. c \<noteq> CHR ''=''" seg]
    by (cases "dropWhile (\<lambda>c. c \<noteq> CHR ''='') seg") (auto simp: vraw_def)
  have seg: "seg = n @ CHR ''='' # vraw"
    using takeWhile_dropWhile_id[of "\<lambda>c. c \<noteq> CHR ''=''" seg] unfolding dweq n_def by simp
  have nQ: "\<forall>c\<in>set n. ?Q c"
    using semi seg unfolding n_def by (auto dest: set_takeWhileD)
  have vsemi: "CHR '';'' \<notin> set vraw" using semi seg by auto
  have tw: "takeWhile ?Q (seg @ rest) = n"
  proof -
    have "seg @ rest = n @ (CHR ''='' # vraw @ rest)" using seg by simp
    then show ?thesis using nQ takeWhile_append_stop[of n ?Q "CHR ''='' # vraw @ rest"] by simp
  qed
  have p2: "drop (length n) (seg @ rest) = CHR ''='' # vraw @ rest"
    using seg by simp
  have nm: "rtrim_ws n = spec_cookie_name seg"
  proof (cases n)
    case Nil
    then show ?thesis by (simp add: spec_cookie_name_def trim_ws_def n_def[symmetric])
  next
    case (Cons a n')
    with seg hd have "\<not> cookie_ws a" by (cases seg) auto
    with Cons show ?thesis by (simp add: spec_cookie_name_def trim_ws_def n_def[symmetric])
  qed
  have rws: "rest = [] \<or> \<not> cookie_ws (hd rest)" using rest by (auto simp: cookie_ws_def)
  have p3: "dropWhile cookie_ws (vraw @ rest) = v1 @ rest"
    unfolding v1_def using rws by (rule dropWhile_keep)
  have v: "spec_cookie_value seg = rtrim_ws v1"
    by (simp add: spec_cookie_value_def trim_ws_def vraw_def v1_def)
  have v1semi: "CHR '';'' \<notin> set v1"
    using vsemi unfolding v1_def by (auto dest: set_dropWhileD)
  have nne: "rtrim_ws n \<noteq> []"
    using plain True nm by (simp add: cookie_segment_plain_def)
  have specseg: "spec_cookie_segment seg d = d(rtrim_ws n \<mapsto> unquote (rtrim_ws v1))"
    using True nm v by (simp add: spec_cookie_segment_def)
  show ?thesis
  proof (cases "v1 \<noteq> [] \<and> hd v1 = CHR 0x22")
    case False
    have q: "\<not> (v1 @ rest \<noteq> [] \<and> hd (v1 @ rest) = CHR 0x22)"
      using False rest by (cases v1) auto
    have raw: "takeWhile (\<lambda>c. c \<noteq> CHR '';'') (v1 @ rest) = v1"
      using v1semi rest by (intro takeWhile_append_stop) auto
    have uq: "unquote (rtrim_ws v1) = rtrim_ws v1"
    proof (cases "rtrim_ws v1 = []")
      case True
      then show ?thesis by (simp add: unquote_def)
    next
      case ne1: False
      obtain w where w: "v1 = rtrim_ws v1 @ w" using rtrim_ws_split by blast
      with ne1 have "hd (rtrim_ws v1) = hd v1" by (metis hd_append2)
      moreover from w ne1 have "v1 \<noteq> []" by auto
      ultimately show ?thesis using False by (simp add: unquote_def)
    qed
    have "cookie_entry (seg @ rest) d = (rest, d(rtrim_ws n \<mapsto> rtrim_ws v1))"
      using q nne unfolding cookie_entry_def tw Let_def p2 by (auto simp: p3 raw)
    then show ?thesis using specseg uq by simp
  next
    case quoted: True
    then have hq: "\<not> cookie_ws (hd v1)" by (simp add: cookie_ws_def)
    from rtrim_ws_hd[OF _ hq] quoted
    have vne: "rtrim_ws v1 \<noteq> []" and vhd: "hd (rtrim_ws v1) = CHR 0x22" by auto
    from plain True v vne vhd
    have len: "2 \<le> length (rtrim_ws v1)" and lastq: "last (rtrim_ws v1) = CHR 0x22"
      and inner: "CHR 0x22 \<notin> set (butlast (tl (rtrim_ws v1)))"
      by (auto simp: cookie_segment_plain_def Let_def)
    define inner where "inner = butlast (tl (rtrim_ws v1))"
    have shape: "rtrim_ws v1 = CHR 0x22 # inner @ [CHR 0x22]"
    proof -
      obtain t where t: "rtrim_ws v1 = CHR 0x22 # t" using vne vhd by (cases "rtrim_ws v1") auto
      with len have "t \<noteq> []" by auto
      moreover from t lastq this have "last t = CHR 0x22" by auto
      ultimately have "t = butlast t @ [CHR 0x22]" by (metis append_butlast_last_id)
      with t show ?thesis by (simp add: inner_def)
    qed
    obtain w where w: "v1 = rtrim_ws v1 @ w" "\<forall>c\<in>set w. cookie_ws c"
      using rtrim_ws_split by blast
    have v1eq: "v1 @ rest = CHR 0x22 # inner @ CHR 0x22 # w @ rest"
      using w(1) shape by (metis append_Cons append_Nil append_assoc)
    have innerq: "\<forall>c\<in>set inner. c \<noteq> CHR 0x22" using inner by (auto simp: inner_def)
    have val: "takeWhile (\<lambda>c. c \<noteq> CHR 0x22) (inner @ CHR 0x22 # w @ rest) = inner"
      using innerq by (intro takeWhile_append_stop) auto
    have uq: "unquote (rtrim_ws v1) = inner"
      using len vhd lastq by (simp add: unquote_def inner_def)
    have "cookie_entry (seg @ rest) d = (w @ rest, d(rtrim_ws n \<mapsto> inner))"
      using nne unfolding cookie_entry_def tw Let_def p2 by (simp add: p3 v1eq val)
    moreover have "dropWhile cookie_skip (w @ rest) = dropWhile cookie_skip rest"
      using w(2) by (auto simp: dropWhile_append cookie_ws_def)
    ultimately show ?thesis using specseg uq by simp
  qed
qed


lemma split_on_ne: "split_on c s \<noteq> []"
proof (induction s)
  case Nil
  show ?case by simp
next
  case (Cons x s)
  then show ?case by (cases "split_on c s") simp_all
qed

lemma split_on_join: "join_semicolon (split_on (CHR '';'') s) = s"
proof (induction s)
  case Nil
  show ?case by simp
next
  case (Cons x s)
  obtain y ys where y: "split_on (CHR '';'') s = y # ys"
    using split_on_ne[of "CHR '';''" s] by (cases "split_on (CHR '';'') s") auto
  show ?case
  proof (cases "x = CHR '';''")
    case True
    with Cons y show ?thesis by simp
  next
    case False
    with Cons y show ?thesis by (cases ys) auto
  qed
qed

lemma split_on_no_sep: "seg \<in> set (split_on c s) \<Longrightarrow> c \<notin> set seg"
proof (induction s arbitrary: seg)
  case Nil
  then show ?case by simp
next
  case (Cons x s)
  obtain y ys where y: "split_on c s = y # ys"
    using split_on_ne[of c s] by (cases "split_on c s") auto
  from Cons.IH y have ih: "c \<notin> set y" "\<forall>z\<in>set ys. c \<notin> set z" by auto
  show ?case using Cons.prems y ih by (auto split: if_splits)
qed

lemma spec_segment_strip:
  assumes "\<forall>c\<in>set w. cookie_ws c"
  shows "spec_cookie_segment (w @ seg) d = spec_cookie_segment seg d"
    and "cookie_segment_plain (w @ seg) = cookie_segment_plain seg"
proof -
  have neq: "\<forall>c\<in>set w. c \<noteq> CHR ''=''" using assms unfolding cookie_ws_def by fastforce
  have a: "takeWhile (\<lambda>c. c \<noteq> CHR ''='') (w @ seg) = w @ takeWhile (\<lambda>c. c \<noteq> CHR ''='') seg"
    using neq by (simp add: takeWhile_append2)
  have b: "dropWhile (\<lambda>c. c \<noteq> CHR ''='') (w @ seg) = dropWhile (\<lambda>c. c \<noteq> CHR ''='') seg"
    using neq by (simp add: dropWhile_append2)
  have c: "trim_ws (w @ t) = trim_ws t" for t
    using assms by (simp add: trim_ws_def dropWhile_append2)
  have e: "(CHR ''='' \<in> set (w @ seg)) = (CHR ''='' \<in> set seg)" using neq by auto
  have nm: "spec_cookie_name (w @ seg) = spec_cookie_name seg"
    by (simp add: spec_cookie_name_def a c)
  have vl: "spec_cookie_value (w @ seg) = spec_cookie_value seg"
    by (simp add: spec_cookie_value_def b)
  show "spec_cookie_segment (w @ seg) d = spec_cookie_segment seg d"
    unfolding spec_cookie_segment_def nm vl e by simp
  show "cookie_segment_plain (w @ seg) = cookie_segment_plain seg"
    unfolding cookie_segment_plain_def nm vl e by simp
qed

lemma loop_segment:
  assumes semi: "CHR '';'' \<notin> set seg"
      and rest: "rest = [] \<or> hd rest = CHR '';''"
      and plain: "cookie_segment_plain seg"
  shows "cruet_parse_cookies_loop (seg @ rest) d =
         cruet_parse_cookies_loop rest (spec_cookie_segment seg d)"
proof -
  define w where "w = takeWhile cookie_ws seg"
  define s1 where "s1 = dropWhile cookie_ws seg"
  have seg: "seg = w @ s1" by (simp add: w_def s1_def)
  have w: "\<forall>c\<in>set w. cookie_ws c" by (auto simp: w_def dest: set_takeWhileD)
  have wskip: "\<forall>c\<in>set w. cookie_skip c" using w unfolding cookie_ws_def by fastforce
  have sp: "spec_cookie_segment seg d = spec_cookie_segment s1 d"
    and pl: "cookie_segment_plain s1"
    using spec_segment_strip(1)[OF w, of s1 d] spec_segment_strip(2)[OF w, of s1] plain seg by auto
  have skipw: "cruet_parse_cookies_loop (seg @ rest) d = cruet_parse_cookies_loop (s1 @ rest) d"
  proof -
    have "dropWhile cookie_skip (seg @ rest) = dropWhile cookie_skip (s1 @ rest)"
      unfolding seg using wskip by (simp add: dropWhile_append2)
    then show ?thesis using loop_skip[of "seg @ rest" d] loop_skip[of "s1 @ rest" d] by simp
  qed
  show ?thesis
  proof (cases "s1 = []")
    case True
    then have "CHR ''='' \<notin> set s1" by simp
    then have "spec_cookie_segment s1 d = d" by (simp add: spec_cookie_segment_def)
    with True skipw sp show ?thesis by simp
  next
    case False
    have h: "\<not> cookie_ws (hd s1)"
      using False hd_dropWhile[of cookie_ws seg] by (simp add: s1_def)
    have s1semi: "CHR '';'' \<notin> set s1" using semi seg by auto
    from cookie_entry_segment[OF s1semi rest False h pl, of d]
    obtain p4 where p4: "cookie_entry (s1 @ rest) d = (p4, spec_cookie_segment s1 d)"
      "dropWhile cookie_skip p4 = dropWhile cookie_skip rest" by blast
    have hs: "\<not> cookie_skip (hd (s1 @ rest))"
      using False h s1semi by (cases s1) (auto simp: cookie_ws_def)
    have "cruet_parse_cookies_loop (s1 @ rest) d = cruet_parse_cookies_loop p4 (spec_cookie_segment s1 d)"
      using loop_step[OF _ hs p4(1)] False by simp
    also have "\<dots> = cruet_parse_cookies_loop rest (spec_cookie_segment s1 d)"
      using p4(2) loop_skip[of p4 "spec_cookie_segment s1 d"] loop_skip[of rest "spec_cookie_segment s1 d"]
      by simp
    finally show ?thesis using skipw sp by simp
  qed
qed

lemma loop_nil: "cruet_parse_cookies_loop [] d = d"
  by (simp add: cruet_parse_cookies_loop.simps)

lemma loop_join:
  assumes "\<forall>seg\<in>set segs. CHR '';'' \<notin> set seg \<and> cookie_segment_plain seg"
  shows "cruet_parse_cookies_loop (join_semicolon segs) d =
         foldl (\<lambda>d seg. spec_cookie_segment seg d) d segs"
  using assms
proof (induction segs arbitrary: d rule: join_semicolon.induct)
  case 1
  show ?case by (simp add: loop_nil)
next
  case (2 x)
  then show ?case using loop_segment[of x "[]" d] by (simp add: loop_nil)
next
  case (3 x y ys)
  have "cruet_parse_cookies_loop (x @ CHR '';'' # join_semicolon (y # ys)) d =
        cruet_parse_cookies_loop (CHR '';'' # join_semicolon (y # ys)) (spec_cookie_segment x d)"
    using 3(2) loop_segment[of x "CHR '';'' # join_semicolon (y # ys)" d] by simp
  also have "\<dots> = cruet_parse_cookies_loop (join_semicolon (y # ys)) (spec_cookie_segment x d)"
    using loop_skip[of "[CHR '';'']@ join_semicolon (y # ys)" "spec_cookie_segment x d"]
          loop_skip[of "join_semicolon (y # ys)" "spec_cookie_segment x d"]
    by simp
  finally show ?case using 3 by simp
qed

text \<open>
  Claim C9, as the code has it. On every cookie string of ASCII characters whose segments are
  plain, the parser returns what the specification's words give: the segments between semicolons, each split at
  its first equals sign, name and value trimmed, one layer of double quotes stripped from the
  value and its inner characters kept as they are, segments without an equals sign skipped, a
  later name overwriting an earlier one.
\<close>

theorem parse_cookies_refines_spec:
  assumes "ascii_only s"
    and "\<forall>seg\<in>set (split_on (CHR '';'') s). cookie_segment_plain seg"
  shows "cruet_parse_cookies s = spec_parse_cookies s"
proof -
  have "\<forall>seg\<in>set (split_on (CHR '';'') s). CHR '';'' \<notin> set seg \<and> cookie_segment_plain seg"
    using assms(2) split_on_no_sep by blast
  from loop_join[OF this, of Map.empty] show ?thesis
    by (simp add: split_on_join cruet_parse_cookies_def spec_parse_cookies_def)
qed

theorem parse_cookies_witness:
  "cruet_parse_cookies ''a=1; b=2; c='' = [''a'' \<mapsto> ''1'', ''b'' \<mapsto> ''2'', ''c'' \<mapsto> []]
   \<and> cruet_parse_cookies (''k = '' @ [CHR 0x22] @ ''v,w '' @ [CHR 0x22] @ '' ;junk; a=1;a=2'')
       = [''k'' \<mapsto> ''v,w '', ''a'' \<mapsto> ''2'']"
proof -
  have a1: "ascii_only ''a=1; b=2; c=''"
    by code_simp
  have a2: "ascii_only (''k = '' @ [CHR 0x22] @ ''v,w '' @ [CHR 0x22] @ '' ;junk; a=1;a=2'')"
    by code_simp
  have h1: "\<forall>seg\<in>set (split_on (CHR '';'') ''a=1; b=2; c=''). cookie_segment_plain seg"
    by code_simp
  have h2: "\<forall>seg\<in>set (split_on (CHR '';'')
              (''k = '' @ [CHR 0x22] @ ''v,w '' @ [CHR 0x22] @ '' ;junk; a=1;a=2'')). cookie_segment_plain seg"
    by code_simp
  have s1: "spec_parse_cookies ''a=1; b=2; c='' = [''a'' \<mapsto> ''1'', ''b'' \<mapsto> ''2'', ''c'' \<mapsto> []]"
    by (simp add: spec_parse_cookies_def spec_cookie_segment_def spec_cookie_name_def
          spec_cookie_value_def trim_ws_def rtrim_ws_def cookie_ws_def unquote_def)
  have s2: "spec_parse_cookies (''k = '' @ [CHR 0x22] @ ''v,w '' @ [CHR 0x22] @ '' ;junk; a=1;a=2'')
       = [''k'' \<mapsto> ''v,w '', ''a'' \<mapsto> ''2'']"
    by (simp add: spec_parse_cookies_def spec_cookie_segment_def spec_cookie_name_def
          spec_cookie_value_def trim_ws_def rtrim_ws_def cookie_ws_def unquote_def)
  show ?thesis
    using parse_cookies_refines_spec [OF a1 h1] parse_cookies_refines_spec [OF a2 h2] s1 s2 by simp
qed

text \<open>
  Claim C9 as stated fails on a quoted value that contains a semicolon: the parser reads the
  value up to the closing double quote, so the input is not split at that semicolon. The input
  is a string of ASCII characters.
\<close>

theorem quoted_semicolon_is_not_a_separator:
  "ascii_only (''a='' @ [CHR 0x22] @ ''x;y'' @ [CHR 0x22])
   \<and> cruet_parse_cookies (''a='' @ [CHR 0x22] @ ''x;y'' @ [CHR 0x22]) ''a'' = Some ''x;y''
   \<and> spec_parse_cookies (''a='' @ [CHR 0x22] @ ''x;y'' @ [CHR 0x22]) ''a'' = Some [CHR 0x22, CHR ''x'']"
  by code_simp

section \<open>Properties of the static index and the map\<close>

















lemma somes_simps [simp]:
  "somes [] = []" "somes (None # xs) = somes xs" "somes (Some x # xs) = x # somes xs"
  by (simp_all add: somes_def)


















section \<open>Routing: what \<open>match\<close> and \<open>build\<close> return\<close>

subsection \<open>A bound map in terms of the registered rules\<close>






subsection \<open>The scan of the dynamic rules\<close>






subsection \<open>Method masks of constructed rules\<close>








subsection \<open>Matching one rule\<close>



lemma first_static_single:
  "is_static r \<Longrightarrow> first_static [r] k = (if rule_str r = k then Some r else None)"
  by (simp add: first_static_def)

lemma dynamic_scan_static_only:
  "is_static r \<Longrightarrow> dynamic_scan ext [r] path m any = Inl (if any then method_not_allowed else not_found)"
  by (simp add: dynamic_scan_def)







subsection \<open>Example rules\<close>







section \<open>Routing: the claims\<close>













end
